theory Spec2Isabelle
  imports Main "HOL-Library.Word" "HOL-Library.Signed_Division"
begin

section \<open>The event retention store of claude-pod\<close>

text \<open>
  A shallow embedding of \<^verbatim>\<open>internal/event/memory.go\<close>: the ring buffer
  \<^verbatim>\<open>MemoryStore\<close> with its index map, and the operations
  \<^verbatim>\<open>NewMemoryStore\<close>, \<^verbatim>\<open>Save\<close>, \<^verbatim>\<open>Get\<close>, \<^verbatim>\<open>List\<close>,
  \<^verbatim>\<open>UpdateStatus\<close> and \<^verbatim>\<open>Count\<close>.

  Every method holds the store's lock for its whole body, so a method is one atomic step
  on the state; the lock field \<^verbatim>\<open>mu\<close> is left out and the methods are modelled
  sequentially. Go's \<^verbatim>\<open>int\<close> is taken to be 64 bits wide and is modelled as
  \<^typ>\<open>int\<close>: every integer the store computes lies between \<open>- cap\<close> and
  \<open>2 * cap\<close>, where \<open>cap\<close> is the length of a slice of events that
  \<^verbatim>\<open>make\<close> has allocated, below \<open>2 ^ 48\<close> and so far below the 64-bit range.
  Go's \<^verbatim>\<open>%\<close> truncates towards zero and is \<open>smod\<close>. A division by zero, an index
  out of range and a \<^verbatim>\<open>make\<close> of a slice with a length out of range are run-time
  panics, written out as the result \<open>RuntimePanic\<close>. Running out of memory below that
  limit is not modelled.
\<close>

subsection \<open>Data model\<close>

text \<open>\<^verbatim>\<open>uuid.UUID\<close> is an array of 16 bytes.\<close>

type_synonym uuid = "128 word"

text \<open>\<^verbatim>\<open>type EventStatus string\<close> with its four lifecycle constants.\<close>

type_synonym EventStatus = string

definition EventStatusReceived :: EventStatus where
  "EventStatusReceived = ''received''"

definition EventStatusForwarded :: EventStatus where
  "EventStatusForwarded = ''forwarded''"

definition EventStatusFailed :: EventStatus where
  "EventStatusFailed = ''failed''"

definition EventStatusCompleted :: EventStatus where
  "EventStatusCompleted = ''completed''"

text \<open>
  \<^verbatim>\<open>types.Event\<close>. The raw body is a byte slice, the headers a map from strings to
  strings, the timestamp an instant (an integer here).
\<close>

record Event =
  ID :: uuid
  ChannelID :: string
  RawBody :: "8 word list"
  Headers :: "string \<rightharpoonup> string"
  Timestamp :: int
  Status :: EventStatus

text \<open>The zero value \<^verbatim>\<open>types.Event{}\<close>, which fills a fresh buffer.\<close>

definition zero_Event :: Event where
  "zero_Event = \<lparr>ID = 0, ChannelID = [], RawBody = [], Headers = Map.empty,
     Timestamp = 0, Status = []\<rparr>"

text \<open>
  \<^verbatim>\<open>MemoryStore\<close>: the ring buffer, the index from event ID to position in the
  buffer, the capacity, the number of stored events and the next write position.
\<close>

record MemoryStore =
  buf :: "Event list"
  index :: "uuid \<rightharpoonup> int"
  cap :: int
  count :: int
  head :: int

text \<open>
  The two error values of the package, and the run-time panic of an index out of range or
  of a remainder by zero.
\<close>

datatype error = ErrNotFound | ErrInvalidCapacity | RuntimePanic

text \<open>Whether \<open>i\<close> is a valid index of the slice \<open>xs\<close>.\<close>

definition in_range :: "'a list \<Rightarrow> int \<Rightarrow> bool" where
  "in_range xs i = (0 \<le> i \<and> i < int (length xs))"

text \<open>
  \<^verbatim>\<open>make([]types.Event, n)\<close> and \<^verbatim>\<open>make([]types.Event, 0, n)\<close> panic in the Go
  runtime (\<^verbatim>\<open>makeslice: len out of range\<close>, \<^verbatim>\<open>cap out of range\<close>) when \<open>n\<close> is
  negative or the slice would take more than \<^verbatim>\<open>maxAlloc\<close> bytes. On a 64-bit
  platform \<^verbatim>\<open>maxAlloc\<close> is \<open>2 ^ 48\<close>, and a \<^verbatim>\<open>types.Event\<close> takes 104 bytes: 16
  for the ID, 16 for each of the two strings, 24 for the byte slice, 8 for the map and 24
  for the time.
\<close>

definition maxAlloc :: int where
  "maxAlloc = 2 ^ 48"

definition Event_size :: int where
  "Event_size = 104"

definition make_panics :: "int \<Rightarrow> bool" where
  "make_panics n = (n < 0 \<or> maxAlloc < Event_size * n)"

subsection \<open>Operations\<close>

text \<open>
  \<^verbatim>\<open>NewMemoryStore\<close>: rejects a capacity that is not positive; for a positive one
  it allocates the buffer with \<^verbatim>\<open>make\<close>, which panics above the limit. The
  \<^verbatim>\<open>make\<close> of the index map takes the capacity as a hint only and does not panic.
\<close>

definition NewMemoryStore :: "int \<Rightarrow> error + MemoryStore" where
  "NewMemoryStore capacity =
     (if capacity \<le> 0 then Inl ErrInvalidCapacity
      else if make_panics capacity then Inl RuntimePanic
      else Inr \<lparr>buf = replicate (nat capacity) zero_Event, index = Map.empty,
                cap = capacity, count = 0, head = 0\<rparr>)"

text \<open>
  \<^verbatim>\<open>Save\<close> mutates the store and returns an error that is always \<^verbatim>\<open>nil\<close>; the
  model returns the store after the call and the error (\<open>None\<close> for \<^verbatim>\<open>nil\<close>). At a
  panic the store is returned as the statements before the panic left it.
\<close>

definition Save :: "MemoryStore \<Rightarrow> Event \<Rightarrow> MemoryStore \<times> error option" where
  "Save s event =
     (if count s = cap s \<and> \<not> in_range (buf s) (head s) then (s, Some RuntimePanic)
      else
        let s1 = (if count s = cap s
                  then s\<lparr>index := (index s)(ID (buf s ! nat (head s)) := None)\<rparr>
                  else s)
        in if \<not> in_range (buf s1) (head s1) then (s1, Some RuntimePanic)
           else
             let s2 = s1\<lparr>buf := (buf s1)[nat (head s1) := event]\<rparr>;
                 s3 = s2\<lparr>index := (index s2)(ID event \<mapsto> head s2)\<rparr>
             in if cap s3 = 0 then (s3, Some RuntimePanic)
                else
                  let s4 = s3\<lparr>head := (head s3 + 1) smod cap s3\<rparr>;
                      s5 = (if count s4 < cap s4 then s4\<lparr>count := count s4 + 1\<rparr> else s4)
                  in (s5, None))"

text \<open>\<^verbatim>\<open>Get\<close>: a lookup in the index, then a read of the buffer.\<close>

definition Get :: "MemoryStore \<Rightarrow> uuid \<Rightarrow> error + Event" where
  "Get s eid =
     (case index s eid of
        None \<Rightarrow> Inl ErrNotFound
      | Some pos \<Rightarrow> if in_range (buf s) pos then Inr (buf s ! nat pos) else Inl RuntimePanic)"

text \<open>
  The loop of \<^verbatim>\<open>List\<close>, from iteration \<open>i\<close> with \<open>skipped\<close> events skipped and
  \<open>result\<close> collected so far. The position is computed before the skip test, as in the
  source; the buffer is read only when the event is taken.
\<close>

function List_loop ::
  "MemoryStore \<Rightarrow> int \<Rightarrow> int \<Rightarrow> int \<Rightarrow> int \<Rightarrow> Event list \<Rightarrow> error + Event list" where
  "List_loop s limit offset i skipped result =
     (if i < count s then
        (if cap s = 0 then Inl RuntimePanic
         else if skipped < offset
           then List_loop s limit offset (i + 1) (skipped + 1) result
         else if \<not> in_range (buf s) ((head s - 1 - i + cap s) smod cap s)
           then Inl RuntimePanic
         else if int (length (result @ [buf s ! nat ((head s - 1 - i + cap s) smod cap s)])) = limit
           then Inr (result @ [buf s ! nat ((head s - 1 - i + cap s) smod cap s)])
         else List_loop s limit offset (i + 1) skipped
                (result @ [buf s ! nat ((head s - 1 - i + cap s) smod cap s)]))
      else Inr result)"
  by pat_completeness auto
termination
  by (relation "measure (\<lambda>(s, limit, offset, i, skipped, result). nat (count s - i))") auto

text \<open>
  \<^verbatim>\<open>List\<close>: nothing for a limit that is not positive, a negative offset raised to
  zero, and \<^verbatim>\<open>make\<close> panics on a capacity \<^verbatim>\<open>min(limit, s.count)\<close> out of range.
\<close>

definition List :: "MemoryStore \<Rightarrow> int \<Rightarrow> int \<Rightarrow> error + Event list" where
  "List s limit offset =
     (if limit \<le> 0 then Inr []
      else if make_panics (min limit (count s)) then Inl RuntimePanic
      else List_loop s limit (if offset < 0 then 0 else offset) 0 0 [])"

text \<open>
  \<^verbatim>\<open>UpdateStatus\<close>: the store after the call and the error returned. Nothing is
  assigned before an error or a panic.
\<close>

definition UpdateStatus :: "MemoryStore \<Rightarrow> uuid \<Rightarrow> EventStatus \<Rightarrow> MemoryStore \<times> error option" where
  "UpdateStatus s eid status =
     (case index s eid of
        None \<Rightarrow> (s, Some ErrNotFound)
      | Some pos \<Rightarrow>
          if in_range (buf s) pos
          then (s\<lparr>buf := (buf s)[nat pos := (buf s ! nat pos)\<lparr>Status := status\<rparr>]\<rparr>, None)
          else (s, Some RuntimePanic))"

definition Count :: "MemoryStore \<Rightarrow> int" where
  "Count s = count s"

text \<open>Saving a sequence of events in order, stopping at the first call that fails.\<close>

fun Save_all :: "MemoryStore \<Rightarrow> Event list \<Rightarrow> MemoryStore \<times> error option" where
  "Save_all s [] = (s, None)"
| "Save_all s (e # es) =
     (case Save s e of
        (s', None) \<Rightarrow> Save_all s' es
      | (s', Some err) \<Rightarrow> (s', Some err))"

text \<open>
  The number of calls of \<open>Save\<close>, in a run over \<open>es\<close>, that take the branch
  \<^verbatim>\<open>s.count == s.cap\<close> and so overwrite (evict) a stored event.
\<close>

fun evictions :: "MemoryStore \<Rightarrow> Event list \<Rightarrow> nat" where
  "evictions s [] = 0"
| "evictions s (e # es) =
     (if count s = cap s then 1 else 0) + evictions (fst (Save s e)) es"

subsection \<open>Stores a program can hold\<close>

text \<open>
  The fields of a store are private to the package: a store is obtained from
  \<open>NewMemoryStore\<close> and changed by \<open>Save\<close> and \<open>UpdateStatus\<close> only.
\<close>

inductive reachable :: "MemoryStore \<Rightarrow> bool" where
  new: "NewMemoryStore capacity = Inr s \<Longrightarrow> reachable s"
| save: "reachable s \<Longrightarrow> Save s e = (s', None) \<Longrightarrow> reachable s'"
| update: "reachable s \<Longrightarrow> UpdateStatus s eid status = (s', r) \<Longrightarrow> reachable s'"

text \<open>
  The invariant these stores satisfy: the buffer has \<open>cap\<close> slots, as many as
  \<^verbatim>\<open>make\<close> has allocated and so within its limit, the cursor and the
  count are in range, a store that is not full has written the slots below its cursor, and
  every entry of the index points at a written slot that holds an event of that ID.
\<close>

definition store_inv :: "MemoryStore \<Rightarrow> bool" where
  "store_inv s =
     (0 < cap s \<and> Event_size * cap s \<le> maxAlloc \<and> int (length (buf s)) = cap s \<and>
      0 \<le> head s \<and> head s < cap s \<and>
      0 \<le> count s \<and> count s \<le> cap s \<and> (count s < cap s \<longrightarrow> head s = count s) \<and>
      (\<forall>k p. index s k = Some p \<longrightarrow> 0 \<le> p \<and> p < count s \<and> ID (buf s ! nat p) = k))"

text \<open>
  The newest-first sequence as the specification gives it, from the write cursor and the
  count alone: the \<open>i\<close>-th most recent event is in slot
  \<open>(cursor - 1 - i + capacity) mod capacity\<close>.
\<close>

definition newest_first :: "MemoryStore \<Rightarrow> Event list" where
  "newest_first s =
     map (\<lambda>i. buf s ! nat ((head s - 1 - int i + cap s) mod cap s)) [0..<nat (count s)]"

text \<open>An event as the ingestion pipeline hands it over, with a given ID.\<close>

definition sample :: "uuid \<Rightarrow> Event" where
  "sample u = \<lparr>ID = u, ChannelID = ''dummy'', RawBody = [], Headers = Map.empty,
     Timestamp = 0, Status = EventStatusReceived\<rparr>"

text \<open>
  The events a store holds: those in the written slots. On a store that is not full these
  are the slots below the cursor, on a full store all of them.
\<close>

definition stored :: "MemoryStore \<Rightarrow> Event set" where
  "stored s = {buf s ! nat p | p. 0 \<le> p \<and> p < count s}"

text \<open>
  The index is complete when every written slot is the index entry of the ID it holds. This
  holds as long as the IDs saved are pairwise distinct.
\<close>

definition index_complete :: "MemoryStore \<Rightarrow> bool" where
  "index_complete s =
     (\<forall>p. 0 \<le> p \<and> p < count s \<longrightarrow> index s (ID (buf s ! nat p)) = Some p)"

text \<open>
  Example stores: fresh ones of capacity 2 and 3, and the store of capacity 3 after
  \<open>sample 1\<close> was saved.
\<close>

abbreviation fresh2 :: MemoryStore where
  "fresh2 \<equiv> \<lparr>buf = [zero_Event, zero_Event], index = Map.empty, cap = 2, count = 0, head = 0\<rparr>"

abbreviation fresh3 :: MemoryStore where
  "fresh3 \<equiv> \<lparr>buf = [zero_Event, zero_Event, zero_Event], index = Map.empty, cap = 3,
     count = 0, head = 0\<rparr>"

abbreviation one_of_3 :: MemoryStore where
  "one_of_3 \<equiv> \<lparr>buf = [sample 1, zero_Event, zero_Event], index = [1 \<mapsto> 0], cap = 3,
     count = 1, head = 1\<rparr>"

section \<open>The invariant\<close>

lemma store_inv_New: "NewMemoryStore c = Inr s \<Longrightarrow> store_inv s"
  by (auto simp: NewMemoryStore_def store_inv_def make_panics_def split: if_splits)

lemma smod_nonneg: "0 \<le> a \<Longrightarrow> 0 < b \<Longrightarrow> a smod b = a mod (b::int)"
  by (simp add: signed_modulo_int_def sgn_if)

text \<open>On a store that satisfies the invariant no branch of \<open>Save\<close> panics.\<close>

lemma Save_eq:
  assumes "store_inv s"
  shows "Save s e =
    (\<lparr>buf = (buf s)[nat (head s) := e],
      index = (if count s = cap s then (index s)(ID (buf s ! nat (head s)) := None)
               else index s)(ID e \<mapsto> head s),
      cap = cap s,
      count = (if count s < cap s then count s + 1 else count s),
      head = (if head s + 1 = cap s then 0 else head s + 1)\<rparr>, None)"
proof -
  have r: "in_range (buf s) (head s)" and c: "cap s \<noteq> 0"
    using assms by (auto simp: store_inv_def in_range_def)
  have m: "(head s + 1) smod cap s = (if head s + 1 = cap s then 0 else head s + 1)"
    using assms by (auto simp: store_inv_def smod_nonneg)
  show ?thesis
    using r c m by (simp add: Save_def Let_def)
qed

lemma store_inv_index:
  "store_inv s \<Longrightarrow> index s k = Some p \<Longrightarrow> 0 \<le> p \<and> p < count s \<and> ID (buf s ! nat p) = k"
  by (simp add: store_inv_def)

lemma store_inv_Save:
  assumes "store_inv s"
  shows "store_inv (fst (Save s e))"
proof -
  let ?t = "fst (Save s e)"
  have shape: "0 < cap ?t \<and> Event_size * cap ?t \<le> maxAlloc \<and>
     int (length (buf ?t)) = cap ?t \<and> 0 \<le> head ?t \<and>
     head ?t < cap ?t \<and> 0 \<le> count ?t \<and> count ?t \<le> cap ?t \<and>
     (count ?t < cap ?t \<longrightarrow> head ?t = count ?t)"
    using assms by (auto simp: Save_eq [OF assms] store_inv_def)
  have idx: "0 \<le> p \<and> p < count ?t \<and> ID (buf ?t ! nat p) = k"
    if h: "index ?t k = Some p" for k p
  proof (cases "k = ID e")
    case True
    with h have "p = head s" by (simp add: Save_eq [OF assms])
    with True assms show ?thesis
      by (auto simp: Save_eq [OF assms] store_inv_def)
  next
    case False
    with h have old: "index s k = Some p"
      by (auto simp: Save_eq [OF assms] split: if_splits)
    note i = store_inv_index [OF assms old]
    have ne: "p \<noteq> head s"
    proof (cases "count s = cap s")
      case True
      with h False have "k \<noteq> ID (buf s ! nat (head s))"
        by (auto simp: Save_eq [OF assms] split: if_splits)
      with i show ?thesis by auto
    next
      case False
      with assms i show ?thesis by (auto simp: store_inv_def)
    qed
    with i assms have "nat p \<noteq> nat (head s)" by (auto simp: store_inv_def)
    with i show ?thesis
      by (auto simp: Save_eq [OF assms])
  qed
  show ?thesis
    unfolding store_inv_def using shape idx by blast
qed

lemma store_inv_UpdateStatus:
  assumes "store_inv s"
  shows "store_inv (fst (UpdateStatus s k st))"
proof (cases "index s k")
  case None
  with assms show ?thesis by (simp add: UpdateStatus_def)
next
  case (Some p)
  note i = store_inv_index [OF assms Some]
  with assms have r: "in_range (buf s) p" by (auto simp: store_inv_def in_range_def)
  have "ID (((buf s)[nat p := (buf s ! nat p)\<lparr>Status := st\<rparr>]) ! q) = ID (buf s ! q)" for q
    by (cases "q = nat p"; cases "q < length (buf s)") (auto simp: list_update_beyond)
  with assms Some r show ?thesis
    by (simp add: UpdateStatus_def store_inv_def)
qed

lemma reachable_inv: "reachable s \<Longrightarrow> store_inv s"
proof (induction rule: reachable.induct)
  case (new capacity s)
  then show ?case by (rule store_inv_New)
next
  case (save s e s')
  from store_inv_Save [OF save.IH, of e] save.hyps show ?case by simp
next
  case (update s eid status s' r)
  from store_inv_UpdateStatus [OF update.IH, of eid status] update.hyps show ?case by simp
qed

lemma store_inv_head: "store_inv s \<Longrightarrow> nat (head s) < length (buf s)"
  by (auto simp: store_inv_def)

lemma Get_Save_same:
  assumes "store_inv s"
  shows "Get (fst (Save s e)) (ID e) = Inr e"
  using store_inv_head [OF assms] assms
  by (simp add: Save_eq [OF assms] Get_def in_range_def store_inv_def)

lemma reachable_Save_all:
  "reachable s \<Longrightarrow> Save_all s es = (s', None) \<Longrightarrow> reachable s'"
proof (induction es arbitrary: s)
  case Nil
  then show ?case by simp
next
  case (Cons e es)
  obtain t where sv: "Save s e = (t, None)"
    by (simp add: Save_eq [OF reachable_inv [OF Cons.prems(1)]])
  have "reachable t" using Cons.prems(1) sv by (rule reachable.save)
  moreover have "Save_all t es = (s', None)" using Cons.prems(2) by (simp add: sv)
  ultimately show ?case by (rule Cons.IH)
qed

lemma count_Save_all_mono:
  "store_inv s \<Longrightarrow> count s \<le> count (fst (Save_all s es))"
proof (induction es arbitrary: s)
  case Nil
  then show ?case by simp
next
  case (Cons e es)
  obtain t where sv: "Save s e = (t, None)"
    by (simp add: Save_eq [OF Cons.prems])
  then have ft: "fst (Save s e) = t" by simp
  have t: "store_inv t" using store_inv_Save [OF Cons.prems, of e] by (simp add: ft)
  have "count s \<le> count t" using Save_eq [OF Cons.prems, of e] sv by auto
  with Cons.IH [OF t] show ?case by (simp add: sv)
qed

section \<open>Example stores\<close>

lemma ID_sample [simp]: "ID (sample u) = u"
  by (simp add: sample_def)

lemma New_fresh3: "NewMemoryStore 3 = Inr fresh3"
  by (simp add: NewMemoryStore_def make_panics_def maxAlloc_def Event_size_def numeral_3_eq_3)

lemma reachable_fresh3: "reachable fresh3"
  using New_fresh3 by (rule reachable.new)

lemma reachable_one_of_3: "reachable one_of_3"
proof (rule reachable.save [OF reachable_fresh3])
  show "Save fresh3 (sample 1) = (one_of_3, None)"
    by (simp add: Save_def Let_def in_range_def signed_modulo_int_def)
qed

lemma New_fresh2: "NewMemoryStore 2 = Inr fresh2"
  by (simp add: NewMemoryStore_def make_panics_def maxAlloc_def Event_size_def numeral_2_eq_2)

lemma reachable_fresh2: "reachable fresh2"
  using New_fresh2 by (rule reachable.new)

section \<open>The loop of List\<close>

text \<open>
  Within the invariant the position computed by the loop is not negative, so the truncated
  remainder of Go is the mathematical one, and the position is a valid index.
\<close>

lemma prev_slot:
  fixes c h i :: int
  assumes "0 \<le> h" "h < c" "0 \<le> i" "i < c"
  shows "(h - 1 - i + c) mod c = (if i < h then h - 1 - i else h - 1 - i + c)"
proof (cases "i < h")
  case True
  then have "(h - 1 - i + c) mod c = (h - 1 - i) mod c" by simp
  also have "\<dots> = h - 1 - i" using True assms by (intro mod_pos_pos_trivial) auto
  finally show ?thesis using True by simp
next
  case False
  then have "(h - 1 - i + c) mod c = h - 1 - i + c" using assms by (intro mod_pos_pos_trivial) auto
  then show ?thesis using False by simp
qed

lemma slot_in_range:
  assumes "store_inv s" "0 \<le> i" "i < count s"
  shows "(head s - 1 - i + cap s) smod cap s = (head s - 1 - i + cap s) mod cap s"
    and "in_range (buf s) ((head s - 1 - i + cap s) mod cap s)"
proof -
  have b: "0 \<le> head s" "head s < cap s" "i < cap s" "0 < cap s" "int (length (buf s)) = cap s"
    using assms by (auto simp: store_inv_def)
  then have "0 \<le> head s - 1 - i + cap s" by simp
  then show "(head s - 1 - i + cap s) smod cap s = (head s - 1 - i + cap s) mod cap s"
    using b by (simp add: smod_nonneg)
  show "in_range (buf s) ((head s - 1 - i + cap s) mod cap s)"
    using b by (simp add: in_range_def)
qed

lemma List_loop_eq:
  "store_inv s \<Longrightarrow> 0 \<le> i \<Longrightarrow> int (length result) < limit \<Longrightarrow> skipped \<le> offset \<Longrightarrow>
    List_loop s limit offset i skipped result =
      Inr (result @ take (nat (limit - int (length result))) (drop (nat (offset - skipped))
        (map (\<lambda>j. buf s ! nat ((head s - 1 - int j + cap s) mod cap s)) [nat i..<nat (count s)])))"
proof (induction s limit offset i skipped result rule: List_loop.induct)
  case (1 s limit offset i skipped result)
  note inv = 1(3) and i0 = 1(4) and len = 1(5) and sko = 1(6)
  show ?case
  proof (cases "i < count s")
    case False
    then show ?thesis by (simp add: List_loop.simps [of s limit offset i])
  next
    case True
    have c0: "cap s \<noteq> 0" using inv by (simp add: store_inv_def)
    have up: "[nat i..<nat (count s)] = nat i # [nat (i + 1)..<nat (count s)]"
      using True i0 by (simp add: upt_conv_Cons nat_add_distrib)
    note sl = slot_in_range [OF inv i0 True]
    show ?thesis
    proof (cases "skipped < offset")
      case sk: True
      have d: "nat (offset - skipped) = Suc (nat (offset - (skipped + 1)))"
        using sk by simp
      from 1(1) [OF True c0 sk inv] i0 len sk
      have "List_loop s limit offset (i + 1) (skipped + 1) result =
        Inr (result @ take (nat (limit - int (length result))) (drop (nat (offset - (skipped + 1)))
        (map (\<lambda>j. buf s ! nat ((head s - 1 - int j + cap s) mod cap s)) [nat (i + 1)..<nat (count s)])))"
        by simp
      then show ?thesis
        using True c0 sk by (simp add: List_loop.simps [of s limit offset i] up d)
    next
      case nsk: False
      then have d: "nat (offset - skipped) = 0" using sko by simp
      let ?e = "buf s ! nat ((head s - 1 - i + cap s) mod cap s)"
      show ?thesis
      proof (cases "int (length (result @ [?e])) = limit")
        case full: True
        then have "nat (limit - int (length result)) = Suc 0" by simp
        then show ?thesis
          using True c0 nsk sl full i0
          by (simp add: List_loop.simps [of s limit offset i] up d)
      next
        case nfull: False
        then have l: "int (length (result @ [?e])) < limit" using len by simp
        have t: "nat (limit - int (length result)) = Suc (nat (limit - int (length (result @ [?e]))))"
          using l by simp
        have r: "\<not> \<not> in_range (buf s) ((head s - 1 - i + cap s) smod cap s)"
          and n: "int (length (result @ [buf s ! nat ((head s - 1 - i + cap s) smod cap s)])) \<noteq> limit"
          using sl nfull by simp_all
        have "List_loop s limit offset (i + 1) skipped (result @ [?e]) =
          Inr ((result @ [?e]) @ take (nat (limit - int (length (result @ [?e]))))
           (drop (nat (offset - skipped))
           (map (\<lambda>j. buf s ! nat ((head s - 1 - int j + cap s) mod cap s)) [nat (i + 1)..<nat (count s)])))"
          using 1(2) [OF True c0 nsk r n inv] sl l i0 sko by simp
        then show ?thesis
          using True c0 nsk sl nfull i0
          by (simp add: List_loop.simps [of s limit offset i] up d t del: length_append)
      qed
    qed
  qed
qed

lemma List_eq:
  assumes "store_inv s"
  shows "List s limit offset =
    Inr (if limit \<le> 0 then []
         else take (nat limit) (drop (nat (if offset < 0 then 0 else offset)) (newest_first s)))"
proof (cases "limit \<le> 0")
  case True
  then show ?thesis by (simp add: List_def)
next
  case False
  have c: "0 \<le> count s" "count s \<le> cap s" "Event_size * cap s \<le> maxAlloc"
    using assms by (simp_all add: store_inv_def)
  have "Event_size * min limit (count s) \<le> Event_size * cap s"
    using c by (intro mult_left_mono) (simp_all add: Event_size_def)
  with c False have m: "\<not> make_panics (min limit (count s))"
    by (simp add: make_panics_def)
  from False have "int (length ([]::Event list)) < limit" by simp
  from List_loop_eq [OF assms _ this, of 0 0 "if offset < 0 then 0 else offset"]
  show ?thesis using False m
    by (simp add: List_def newest_first_def)
qed

section \<open>The newest-first sequence and the order of saving\<close>

text \<open>
  One call of \<open>Save\<close> puts the event in front of the newest-first sequence and cuts the
  sequence at the capacity: the event that falls off is the oldest.
\<close>

lemma newest_first_nth:
  "int j < count s \<Longrightarrow>
     newest_first s ! j = buf s ! nat ((head s - 1 - int j + cap s) mod cap s)"
  by (simp add: newest_first_def)

lemma newest_first_Save:
  assumes inv: "store_inv s"
  shows "newest_first (fst (Save s e)) = take (nat (cap s)) (e # newest_first s)"
proof (rule nth_equalityI)
  have b: "0 \<le> head s" "head s < cap s" "0 < cap s" "0 \<le> count s" "count s \<le> cap s"
    "int (length (buf s)) = cap s"
    using inv by (auto simp: store_inv_def)
  let ?t = "fst (Save s e)"
  have ct: "count ?t = (if count s < cap s then count s + 1 else count s)"
    and ht: "head ?t = (if head s + 1 = cap s then 0 else head s + 1)"
    and bt: "buf ?t = (buf s)[nat (head s) := e]"
    and cpt: "cap ?t = cap s"
    by (simp_all add: Save_eq [OF inv])
  show len: "length (newest_first ?t) = length (take (nat (cap s)) (e # newest_first s))"
    using b by (auto simp: newest_first_def ct)
  fix j assume "j < length (newest_first ?t)"
  then have j: "int j < count ?t" by (simp add: newest_first_def)
  then have jc: "int j < cap s" and jn: "j < nat (cap s)" using b by (auto simp: ct split: if_splits)
  have eq: "head ?t - 1 - int j + cap s =
      (if head s + 1 = cap s then head s - int j else head s - int j + cap s)"
    by (simp add: ht)
  have pos: "(head ?t - 1 - int j + cap ?t) mod cap ?t = (head s - int j) mod cap s"
    unfolding cpt eq by simp
  have lhs: "newest_first ?t ! j = (buf s)[nat (head s) := e] ! nat ((head s - int j) mod cap s)"
    by (simp only: newest_first_nth [OF j] pos bt)
  show "newest_first ?t ! j = take (nat (cap s)) (e # newest_first s) ! j"
  proof (cases j)
    case 0
    then have "(head s - int j) mod cap s = head s" using b by simp
    then have "newest_first ?t ! j = (buf s)[nat (head s) := e] ! nat (head s)"
      by (simp only: lhs)
    also have "\<dots> = e" using b by simp
    finally show ?thesis using 0 jn by simp
  next
    case (Suc m)
    then have m: "int m < count s" "0 \<le> int m" "int m < cap s"
      using j b by (auto simp: ct split: if_splits)
    have "head s - 1 - int m + cap s = head s - int j + cap s"
      using Suc by simp
    then have e1: "(head s - int j) mod cap s = (head s - 1 - int m + cap s) mod cap s"
      by (simp only: mod_add_self2)
    have e2: "(head s - 1 - int m + cap s) mod cap s =
        (if int m < head s then head s - 1 - int m else head s - 1 - int m + cap s)"
      using b m by (intro prev_slot) auto
    have m1: "int m + 1 < cap s" using jc Suc by simp
    have ne: "nat ((head s - 1 - int m + cap s) mod cap s) \<noteq> nat (head s)"
      using b m m1 unfolding e2 by auto
    have "newest_first ?t ! j = buf s ! nat ((head s - 1 - int m + cap s) mod cap s)"
      using ne by (simp add: lhs e1)
    also have "\<dots> = newest_first s ! m"
      by (simp only: newest_first_nth [OF m(1)])
    finally show ?thesis using Suc jn by simp
  qed
qed

lemma Save_all_inv:
  "store_inv s \<Longrightarrow> snd (Save_all s es) = None \<and> store_inv (fst (Save_all s es)) \<and>
     cap (fst (Save_all s es)) = cap s \<and>
     newest_first (fst (Save_all s es)) = take (nat (cap s)) (rev es @ newest_first s)"
proof (induction es arbitrary: s)
  case Nil
  then have "length (newest_first s) \<le> nat (cap s)"
    by (auto simp: newest_first_def store_inv_def)
  with Nil show ?case by simp
next
  case (Cons e es)
  obtain t where sv: "Save s e = (t, None)"
    by (simp add: Save_eq [OF Cons.prems])
  then have ft: "fst (Save s e) = t" by simp
  have t: "store_inv t" using store_inv_Save [OF Cons.prems, of e] by (simp add: ft)
  have c: "cap t = cap s" using Save_eq [OF Cons.prems, of e] sv by auto
  have nf: "newest_first t = take (nat (cap s)) (e # newest_first s)"
    using newest_first_Save [OF Cons.prems, of e] by (simp add: ft)
  have "take (nat (cap s)) (rev es @ take (nat (cap s)) (e # newest_first s)) =
        take (nat (cap s)) (rev es @ e # newest_first s)"
    by (simp add: min_def)
  with Cons.IH [OF t] show ?case
    by (simp add: sv c nf)
qed

lemma newest_first_New: "NewMemoryStore c = Inr s \<Longrightarrow> newest_first s = [] \<and> cap s = c"
  by (auto simp: NewMemoryStore_def newest_first_def split: if_splits)

lemma Save_all_New:
  assumes new: "NewMemoryStore c = Inr s0"
  shows "\<exists>s. Save_all s0 es = (s, None) \<and> store_inv s \<and> cap s = c \<and>
           newest_first s = take (nat c) (rev es)"
proof -
  have i: "store_inv s0" using new by (rule store_inv_New)
  from Save_all_inv [OF i, of es] newest_first_New [OF new]
  show ?thesis by (cases "Save_all s0 es") simp
qed

lemma count_Save_all:
  "store_inv s \<Longrightarrow>
     count (fst (Save_all s es)) = count s + int (length es) - int (evictions s es)"
proof (induction es arbitrary: s)
  case Nil
  then show ?case by simp
next
  case (Cons e es)
  obtain t where sv: "Save s e = (t, None)"
    by (simp add: Save_eq [OF Cons.prems])
  then have ft: "fst (Save s e) = t" by simp
  have t: "store_inv t" using store_inv_Save [OF Cons.prems, of e] by (simp add: ft)
  have "count s \<le> cap s" using Cons.prems by (simp add: store_inv_def)
  then have c: "count t = count s + 1 - (if count s = cap s then 1 else 0)"
    using Save_eq [OF Cons.prems, of e] sv by auto
  from Cons.IH [OF t] c show ?case
    by (simp add: sv ft)
qed

section \<open>The index\<close>

lemma stored_New: "NewMemoryStore c = Inr s \<Longrightarrow> stored s = {}"
  by (auto simp: NewMemoryStore_def stored_def split: if_splits)

lemma set_newest_first:
  assumes inv: "store_inv s"
  shows "set (newest_first s) = stored s"
proof -
  have b: "0 \<le> head s" "head s < cap s" "0 < cap s" "0 \<le> count s" "count s \<le> cap s"
    "count s < cap s \<Longrightarrow> head s = count s"
    using inv by (auto simp: store_inv_def)
  have sl: "(head s - 1 - i + cap s) mod cap s =
        (if i < head s then head s - 1 - i else head s - 1 - i + cap s)"
    if "0 \<le> i" "i < count s" for i
    using b that by (intro prev_slot) auto
  have 1: "x \<in> stored s" if "x \<in> set (newest_first s)" for x
  proof -
    from that obtain j where j: "j < nat (count s)" and x: "x = newest_first s ! j"
      by (auto simp: in_set_conv_nth newest_first_def)
    then have jc: "int j < count s" by simp
    let ?q = "(head s - 1 - int j + cap s) mod cap s"
    have "0 \<le> ?q \<and> ?q < count s"
      using sl [of "int j"] jc b by (cases "count s < cap s") (auto split: if_splits)
    moreover have "x = buf s ! nat ?q"
      using x by (simp only: newest_first_nth [OF jc])
    ultimately show ?thesis unfolding stored_def by blast
  qed
  have 2: "x \<in> set (newest_first s)" if "x \<in> stored s" for x
  proof -
    from that obtain p where p: "0 \<le> p" "p < count s" and x: "x = buf s ! nat p"
      by (auto simp: stored_def)
    define i where "i = (if p < head s then head s - 1 - p else head s - 1 - p + cap s)"
    have i: "0 \<le> i" "i < count s"
      using p b by (cases "count s < cap s"; auto simp: i_def)+
    have "(head s - 1 - i + cap s) mod cap s = p"
      using sl [OF i] p b by (auto simp: i_def split: if_splits)
    moreover have "int (nat i) < count s" "int (nat i) = i" using i by auto
    ultimately have "newest_first s ! nat i = x"
      using newest_first_nth [of "nat i" s] x by simp
    moreover have "nat i < length (newest_first s)"
      using i by (simp add: newest_first_def)
    ultimately show ?thesis by (metis nth_mem)
  qed
  from 1 2 show ?thesis by blast
qed

lemma index_complete_New: "NewMemoryStore c = Inr s \<Longrightarrow> index_complete s"
  by (auto simp: NewMemoryStore_def index_complete_def split: if_splits)

lemma index_complete_Save:
  assumes inv: "store_inv s" and ic: "index_complete s" and fresh: "\<forall>x\<in>stored s. ID x \<noteq> ID e"
  shows "index_complete (fst (Save s e))"
  unfolding index_complete_def
proof (intro allI impI)
  let ?t = "fst (Save s e)"
  fix p assume p: "0 \<le> p \<and> p < count ?t"
  have b: "0 \<le> head s" "head s < cap s" "0 < cap s" "0 \<le> count s" "count s \<le> cap s"
    "count s < cap s \<Longrightarrow> head s = count s" "int (length (buf s)) = cap s"
    using inv by (auto simp: store_inv_def)
  show "index ?t (ID (buf ?t ! nat p)) = Some p"
  proof (cases "p = head s")
    case True
    then show ?thesis using b by (simp add: Save_eq [OF inv])
  next
    case False
    then have np: "nat p \<noteq> nat (head s)" using p b by auto
    have pc: "p < count s" using p b False by (auto simp: Save_eq [OF inv] split: if_splits)
    then have st: "buf s ! nat p \<in> stored s" using p unfolding stored_def by blast
    then have ne: "ID (buf s ! nat p) \<noteq> ID e" using fresh by blast
    have old: "index s (ID (buf s ! nat p)) = Some p"
      using ic p pc by (simp add: index_complete_def)
    have "ID (buf s ! nat p) \<noteq> ID (buf s ! nat (head s))" if "count s = cap s"
    proof
      assume "ID (buf s ! nat p) = ID (buf s ! nat (head s))"
      moreover have "index s (ID (buf s ! nat (head s))) = Some (head s)"
        using ic b that by (simp add: index_complete_def)
      ultimately show False using old False by simp
    qed
    then show ?thesis using np ne old by (auto simp: Save_eq [OF inv])
  qed
qed

lemma Get_complete:
  assumes inv: "store_inv s" and ic: "index_complete s" and e: "e \<in> stored s"
  shows "Get s (ID e) = Inr e"
proof -
  from e obtain p where p: "0 \<le> p" "p < count s" "e = buf s ! nat p"
    by (auto simp: stored_def)
  then have "index s (ID e) = Some p" using ic by (simp add: index_complete_def)
  moreover have "in_range (buf s) p" using p inv by (auto simp: in_range_def store_inv_def)
  ultimately show ?thesis using p by (simp add: Get_def)
qed

lemma Get_sound:
  assumes inv: "store_inv s" and x: "\<forall>e\<in>stored s. ID e \<noteq> x"
  shows "Get s x = Inl ErrNotFound"
proof (cases "index s x")
  case None
  then show ?thesis by (simp add: Get_def)
next
  case (Some p)
  from store_inv_index [OF inv Some] have "buf s ! nat p \<in> stored s" "ID (buf s ! nat p) = x"
    unfolding stored_def by blast+
  with x show ?thesis by blast
qed

lemma Save_all_index_complete:
  "store_inv s \<Longrightarrow> index_complete s \<Longrightarrow> distinct (map ID es) \<Longrightarrow>
     \<forall>x\<in>set es. \<forall>y\<in>stored s. ID x \<noteq> ID y \<Longrightarrow> index_complete (fst (Save_all s es))"
proof (induction es arbitrary: s)
  case Nil
  then show ?case by simp
next
  case (Cons e es)
  obtain t where sv: "Save s e = (t, None)"
    by (simp add: Save_eq [OF Cons.prems(1)])
  then have ft: "fst (Save s e) = t" by simp
  have t: "store_inv t" using store_inv_Save [OF Cons.prems(1), of e] by (simp add: ft)
  have "\<forall>x\<in>stored s. ID x \<noteq> ID e" using Cons.prems(4) by force
  then have ic: "index_complete t"
    using index_complete_Save [OF Cons.prems(1,2), of e] by (simp add: ft)
  have "stored t = set (newest_first t)" using set_newest_first [OF t] by simp
  also have "\<dots> \<subseteq> insert e (set (newest_first s))"
    using newest_first_Save [OF Cons.prems(1), of e] set_take_subset [of "nat (cap s)" "e # newest_first s"]
    by (simp add: ft)
  also have "\<dots> = insert e (stored s)" using set_newest_first [OF Cons.prems(1)] by simp
  finally have sub: "stored t \<subseteq> insert e (stored s)" .
  have "\<forall>x\<in>set es. \<forall>y\<in>stored t. ID x \<noteq> ID y"
  proof (intro ballI)
    fix x y assume x: "x \<in> set es" and "y \<in> stored t"
    with sub consider "y = e" | "y \<in> stored s" by blast
    then show "ID x \<noteq> ID y"
    proof cases
      case 1
      have "ID e \<notin> ID ` set es" using Cons.prems(3) by simp
      with x 1 show ?thesis by (metis imageI)
    next
      case 2
      with x Cons.prems(4) show ?thesis by simp
    qed
  qed
  with Cons.IH [OF t ic] Cons.prems(3) show ?case
    by (simp add: sv)
qed

lemma UpdateStatus_eq:
  assumes inv: "store_inv s" and idx: "index s x = Some p"
  shows "UpdateStatus s x st =
           (s\<lparr>buf := (buf s)[nat p := (buf s ! nat p)\<lparr>Status := st\<rparr>]\<rparr>, None)"
    and "Get s x = Inr (buf s ! nat p)"
    and "in_range (buf s) p"
    and "nat p < length (buf s)"
proof -
  from store_inv_index [OF inv idx] inv have r: "in_range (buf s) p"
    by (auto simp: in_range_def store_inv_def)
  then show "nat p < length (buf s)" by (auto simp: in_range_def)
  from r show "in_range (buf s) p" .
  from r idx show "UpdateStatus s x st =
           (s\<lparr>buf := (buf s)[nat p := (buf s ! nat p)\<lparr>Status := st\<rparr>]\<rparr>, None)"
    by (simp add: UpdateStatus_def)
  from r idx show "Get s x = Inr (buf s ! nat p)" by (simp add: Get_def)
qed

lemma Get_cases:
  assumes inv: "store_inv s"
  shows "(Get s x = Inl ErrNotFound \<longleftrightarrow> index s x = None) \<and>
         (Get s x = Inr r \<longleftrightarrow> (\<exists>p. index s x = Some p \<and> r = buf s ! nat p))"
proof (cases "index s x")
  case None
  then show ?thesis by (simp add: Get_def)
next
  case (Some p)
  from UpdateStatus_eq(2) [OF inv Some] Some show ?thesis by auto
qed

lemma ID_update_status:
  "ID ((xs[n := (xs ! n)\<lparr>Status := st\<rparr>]) ! q) = ID (xs ! q)"
  by (cases "q = n"; cases "q < length xs") (auto simp: list_update_beyond)

section \<open>The distance of a slot from the cursor\<close>

text \<open>
  \<open>(p - head) mod cap\<close> is the number of calls of \<open>Save\<close> before the cursor writes
  slot \<open>p\<close>. Until then the slot keeps its event, and no call makes the index point at it.
\<close>

lemma cursor_distance_step:
  fixes p h c :: int
  assumes "0 \<le> h" "h < c" "1 \<le> (p - h) mod c"
  shows "(p - (if h + 1 = c then 0 else h + 1)) mod c = (p - h) mod c - 1"
proof -
  have "(p - (if h + 1 = c then 0 else h + 1)) mod c = (p - h - 1) mod c"
  proof (cases "h + 1 = c")
    case True
    then have "p - (if h + 1 = c then 0 else h + 1) = p - h - 1 + c" by simp
    then show ?thesis by (simp only: mod_add_self2)
  next
    case False
    then show ?thesis by (simp add: algebra_simps)
  qed
  also have "\<dots> = ((p - h) mod c - 1) mod c"
    by (simp add: mod_diff_left_eq)
  also have "\<dots> = (p - h) mod c - 1"
  proof -
    have "0 < c" using assms by simp
    then have "(p - h) mod c < c" by (rule pos_mod_bound)
    then have "(p - h) mod c - 1 < c" by linarith
    moreover have "0 \<le> (p - h) mod c - 1" using assms(3) by linarith
    ultimately show ?thesis by (simp only: mod_pos_pos_trivial)
  qed
  finally show ?thesis .
qed

lemma cursor_distance_pos:
  fixes p h c :: int
  assumes "1 \<le> (p - h) mod c"
  shows "p \<noteq> h"
proof
  assume "p = h"
  then have "(p - h) mod c = 0" by simp
  with assms show False by simp
qed

lemma slot_untouched:
  "store_inv s \<Longrightarrow> 0 \<le> p \<Longrightarrow> p < cap s \<Longrightarrow> int (length es) \<le> (p - head s) mod cap s \<Longrightarrow>
     \<forall>k. index s k \<noteq> Some p \<Longrightarrow>
     snd (Save_all s es) = None \<and> buf (fst (Save_all s es)) ! nat p = buf s ! nat p \<and>
     (\<forall>k. index (fst (Save_all s es)) k \<noteq> Some p)"
proof (induction es arbitrary: s)
  case Nil
  then show ?case by simp
next
  case (Cons e es)
  note inv = Cons.prems(1)
  have b: "0 \<le> head s" "head s < cap s" "0 < cap s"
    using inv by (auto simp: store_inv_def)
  obtain t where sv: "Save s e = (t, None)"
    by (simp add: Save_eq [OF inv])
  then have ft: "fst (Save s e) = t" by simp
  have t: "store_inv t" using store_inv_Save [OF inv, of e] by (simp add: ft)
  have tf: "buf t = (buf s)[nat (head s) := e]" "cap t = cap s"
    "head t = (if head s + 1 = cap s then 0 else head s + 1)"
    "index t = (if count s = cap s then (index s)(ID (buf s ! nat (head s)) := None)
               else index s)(ID e \<mapsto> head s)"
    using Save_eq [OF inv, of e] sv by auto
  have d: "1 \<le> (p - head s) mod cap s" using Cons.prems(4) by simp
  have ne: "p \<noteq> head s" using d by (rule cursor_distance_pos)
  then have nn: "nat p \<noteq> nat (head s)" using Cons.prems(2) b by auto
  have dt: "int (length es) \<le> (p - head t) mod cap t"
    using cursor_distance_step [OF b(1,2) d] Cons.prems(4) by (simp add: tf)
  have orph: "\<forall>k. index t k \<noteq> Some p"
    using Cons.prems(5) ne by (auto simp: tf)
  from Cons.IH [OF t Cons.prems(2) _ dt orph] Cons.prems(3) nn
  show ?case by (simp add: sv tf)
qed

section \<open>Construction\<close>




section \<open>Save\<close>

text \<open>
  C8. On every store a program can hold, \<open>Save\<close> returns no error, and the \<open>Count\<close>
  grows by exactly one, unless the store already holds \<open>cap\<close> events: then it stays at
  \<open>cap\<close>.
\<close>

theorem Save_always_succeeds:
  assumes "reachable s"
  shows "\<exists>s'. Save s e = (s', None) \<and>
           Count s' = (if Count s = cap s then cap s else Count s + 1)"
proof -
  have i: "store_inv s" using assms by (rule reachable_inv)
  then have "count s \<le> cap s" by (simp add: store_inv_def)
  then show ?thesis
    by (auto simp: Save_eq [OF i] Count_def)
qed

theorem Save_always_succeeds_witness:
  "reachable fresh2 \<and> (\<exists>s'. Save fresh2 (sample 7) = (s', None) \<and> Count s' = 1)"
  using reachable_fresh2 Save_always_succeeds [OF reachable_fresh2, of "sample 7"]
  by (simp add: Count_def)

text \<open>
  C3. A record saved into a store that holds fewer than \<open>cap\<close> records is returned by
  \<open>Get\<close> on its ID, equal to the saved record as a whole, so in each of its fields
  \<open>ID\<close>, \<open>ChannelID\<close>, \<open>RawBody\<close>, \<open>Headers\<close>, \<open>Timestamp\<close> and \<open>Status\<close>.
  The ID need not differ from the retained ones: the index entry of the ID is set to the
  slot just written.
\<close>

theorem Save_Get_roundtrip:
  assumes "reachable s" and "Count s < cap s"
  shows "\<exists>s'. Save s r = (s', None) \<and> Get s' (ID r) = Inr r"
proof -
  have i: "store_inv s" using assms(1) by (rule reachable_inv)
  from Get_Save_same [OF i, of r] Save_eq [OF i, of r] show ?thesis
    by simp
qed

theorem Save_Get_roundtrip_witness:
  "reachable fresh2 \<and> Count fresh2 < cap fresh2 \<and>
   (\<exists>s'. Save fresh2 (sample 7) = (s', None) \<and> Get s' (ID (sample 7)) = Inr (sample 7))"
  using reachable_fresh2 Save_Get_roundtrip [OF reachable_fresh2, of "sample 7"]
  by (simp add: Count_def)

section \<open>Eviction\<close>

text \<open>
  C1. Saving \<open>c + k\<close> records with pairwise distinct IDs into a fresh store of capacity
  \<open>c\<close> leaves exactly the last \<open>c\<close> of them retrievable: \<open>Get\<close> on the ID of each of
  the last \<open>c\<close> returns that record, \<open>Get\<close> on the ID of each of the first \<open>k\<close> fails
  with \<open>ErrNotFound\<close>, and so does \<open>Get\<close> on every ID that is not among the last
  \<open>c\<close>. The capacity is at least 1 because the store was constructed; the statement
  holds for \<open>k = 0\<close> as well.
\<close>

theorem eviction_order:
  assumes new: "NewMemoryStore c = Inr s0"
    and len: "length es = nat c + k"
    and dist: "distinct (map ID es)"
  shows "\<exists>s. Save_all s0 es = (s, None) \<and>
           (\<forall>e\<in>set (drop k es). Get s (ID e) = Inr e) \<and>
           (\<forall>e\<in>set (take k es). Get s (ID e) = Inl ErrNotFound) \<and>
           (\<forall>x. x \<notin> ID ` set (drop k es) \<longrightarrow> Get s x = Inl ErrNotFound)"
proof -
  from Save_all_New [OF new, of es] obtain s where
    s: "Save_all s0 es = (s, None)" and inv: "store_inv s"
    and nf: "newest_first s = take (nat c) (rev es)"
    by blast
  have "take (nat c) (rev es) = rev (drop k es)"
    using len by (simp add: take_rev)
  then have st: "stored s = set (drop k es)"
    using set_newest_first [OF inv] nf by simp
  have "index_complete (fst (Save_all s0 es))"
    using store_inv_New [OF new] index_complete_New [OF new] dist
    by (rule Save_all_index_complete) (simp add: stored_New [OF new])
  then have ic: "index_complete s" by (simp add: s)
  have 1: "\<forall>e\<in>set (drop k es). Get s (ID e) = Inr e"
    using Get_complete [OF inv ic] st by simp
  have 3: "Get s x = Inl ErrNotFound" if "x \<notin> ID ` set (drop k es)" for x
    using that st by (intro Get_sound [OF inv]) auto
  have "distinct (map ID (take k es @ drop k es))" using dist by simp
  then have "ID ` set (take k es) \<inter> ID ` set (drop k es) = {}"
    unfolding map_append distinct_append by simp
  then have 2: "\<forall>e\<in>set (take k es). Get s (ID e) = Inl ErrNotFound"
    using 3 by blast
  from s 1 2 3 show ?thesis by blast
qed

theorem eviction_order_witness:
  "\<exists>s. Save_all fresh2
          [sample 1, sample 2, sample 3] = (s, None) \<and>
        Get s 3 = Inr (sample 3) \<and> Get s 2 = Inr (sample 2) \<and> Get s 1 = Inl ErrNotFound \<and>
        Get s 9 = Inl ErrNotFound"
proof -
  have len: "length [sample 1, sample 2, sample 3] = nat 2 + 1" by simp
  have dist: "distinct (map ID [sample 1, sample 2, sample 3])" by (simp add: sample_def)
  from eviction_order [OF New_fresh2 len dist] show ?thesis
    by (auto simp: sample_def)
qed

text \<open>
  C4. After any sequence of calls of \<open>Save\<close> on a constructed store, whatever the IDs,
  \<open>Count\<close> lies between 0 and the capacity and is the number of records saved and not
  evicted: the number of calls minus the number of calls that evicted a record. These are
  the records \<open>List\<close> returns when asked for as many as the capacity, the last saved
  ones.
\<close>

theorem Count_bound:
  assumes new: "NewMemoryStore c = Inr s0"
  shows "\<exists>s. Save_all s0 es = (s, None) \<and> 0 \<le> Count s \<and> Count s \<le> c \<and>
           Count s = int (length es) - int (evictions s0 es) \<and>
           List s c 0 = Inr (take (nat c) (rev es)) \<and>
           Count s = int (length (take (nat c) (rev es)))"
proof -
  from Save_all_New [OF new, of es] obtain s where
    s: "Save_all s0 es = (s, None)" and inv: "store_inv s" and c: "cap s = c"
    and nf: "newest_first s = take (nat c) (rev es)"
    by blast
  have b: "0 \<le> count s" "count s \<le> c" "0 < c" using inv c by (auto simp: store_inv_def)
  have "count s0 = 0" using new by (auto simp: NewMemoryStore_def split: if_splits)
  with count_Save_all [OF store_inv_New [OF new], of es]
  have ev: "count s = int (length es) - int (evictions s0 es)" by (simp add: s)
  have "length (newest_first s) = nat (count s)" by (simp add: newest_first_def)
  then have l: "count s = int (length (take (nat c) (rev es)))" using b nf by simp
  have "List s c 0 = Inr (take (nat c) (rev es))"
    using b by (simp add: List_eq [OF inv] nf)
  with s b ev l show ?thesis by (simp add: Count_def)
qed

theorem Count_bound_witness:
  "\<exists>s. Save_all fresh2
          [sample 1, sample 1, sample 3] = (s, None) \<and> Count s = 2 \<and>
        evictions fresh2
          [sample 1, sample 1, sample 3] = 1 \<and>
        List s 2 0 = Inr [sample 3, sample 1]"
proof -
  have ev: "evictions fresh2
          [sample 1, sample 1, sample 3] = 1"
    by (simp add: Save_def Let_def in_range_def signed_modulo_int_def)
  from Count_bound [OF New_fresh2, of "[sample 1, sample 1, sample 3]"] ev show ?thesis
    by (auto simp: numeral_2_eq_2)
qed

text \<open>
  C9. When a store retains a record with ID \<open>x\<close>, in the written slot \<open>p\<close>, saving a
  new record with the same ID makes the index entry of \<open>x\<close> point at the slot just
  written, so that \<open>Get\<close> returns the new record. The slot \<open>p\<close> keeps the old record
  and stays a written slot, with no index entry pointing at it, through the calls of
  \<open>Save\<close> that come before the cursor reaches it: \<open>(p - head) mod cap\<close> calls, the
  one that saves the new record included. When \<open>p\<close> is the slot under the cursor of a
  full store, that number is 0 and the new record evicts the old one at once.
\<close>

theorem duplicate_id_overwrites:
  assumes reach: "reachable s" and live: "0 \<le> p" "p < count s" and old: "ID (buf s ! nat p) = x"
    and e: "ID e = x"
  shows "\<exists>s1. Save s e = (s1, None) \<and> index s1 x = Some (head s) \<and> Get s1 x = Inr e \<and>
           (\<forall>es. int (length es) < (p - head s) mod cap s \<longrightarrow>
              (\<exists>s2. Save_all s1 es = (s2, None) \<and> p < count s2 \<and>
                    buf s2 ! nat p = buf s ! nat p \<and> (\<forall>k. index s2 k \<noteq> Some p)))"
proof -
  have inv: "store_inv s" using reach by (rule reachable_inv)
  have b: "0 \<le> head s" "head s < cap s" "0 < cap s" "count s \<le> cap s"
    using inv by (auto simp: store_inv_def)
  obtain t where sv: "Save s e = (t, None)"
    by (simp add: Save_eq [OF inv])
  then have ft: "fst (Save s e) = t" by simp
  have t: "store_inv t" using store_inv_Save [OF inv, of e] by (simp add: ft)
  have tf: "buf t = (buf s)[nat (head s) := e]" "cap t = cap s"
    "head t = (if head s + 1 = cap s then 0 else head s + 1)"
    "index t = (if count s = cap s then (index s)(ID (buf s ! nat (head s)) := None)
               else index s)(ID e \<mapsto> head s)"
    "count s \<le> count t"
    using Save_eq [OF inv, of e] sv by auto
  have g: "Get t x = Inr e" using Get_Save_same [OF inv, of e] e by (simp add: ft)
  have ix: "index t x = Some (head s)" using e by (simp add: tf)
  have rest: "\<exists>s2. Save_all t es = (s2, None) \<and> p < count s2 \<and>
                 buf s2 ! nat p = buf s ! nat p \<and> (\<forall>k. index s2 k \<noteq> Some p)"
    if len: "int (length es) < (p - head s) mod cap s" for es
  proof -
    have d: "1 \<le> (p - head s) mod cap s" using len by simp
    have ne: "p \<noteq> head s" using d by (rule cursor_distance_pos)
    then have nn: "nat p \<noteq> nat (head s)" using live b by auto
    have dt: "int (length es) \<le> (p - head t) mod cap t"
      using cursor_distance_step [OF b(1,2) d] len by (simp add: tf)
    have orph: "\<forall>k. index t k \<noteq> Some p"
    proof (intro allI notI)
      fix k assume k: "index t k = Some p"
      then have "k \<noteq> x" using ix ne by auto
      moreover from k this e have "index s k = Some p" by (auto simp: tf split: if_splits)
      ultimately show False using store_inv_index [OF inv] old by blast
    qed
    have pc: "p < cap t" using live b by (simp add: tf)
    have "p < count (fst (Save_all t es))"
      using count_Save_all_mono [OF t, of es] live tf(5) by simp
    with slot_untouched [OF t live(1) pc dt orph] nn show ?thesis
      by (cases "Save_all t es") (simp add: tf)
  qed
  from sv ix g rest show ?thesis by blast
qed

theorem duplicate_id_overwrites_witness:
  "reachable one_of_3 \<and> (0::int) \<le> 0 \<and> 0 < count one_of_3 \<and> ID (buf one_of_3 ! nat 0) = 1 \<and>
   ID ((sample 1)\<lparr>ChannelID := ''grafana''\<rparr>) = 1 \<and>
   (\<exists>s1. Save one_of_3 ((sample 1)\<lparr>ChannelID := ''grafana''\<rparr>) = (s1, None) \<and>
      index s1 1 = Some 1 \<and> Get s1 1 = Inr ((sample 1)\<lparr>ChannelID := ''grafana''\<rparr>) \<and>
      (\<exists>s2. Save_all s1 [sample 2] = (s2, None) \<and> 0 < count s2 \<and> buf s2 ! nat 0 = sample 1 \<and>
         (\<forall>k. index s2 k \<noteq> Some 0)))"
proof -
  have h: "(0::int) \<le> 0" "0 < count one_of_3" "ID (buf one_of_3 ! nat 0) = 1"
    "ID ((sample 1)\<lparr>ChannelID := ''grafana''\<rparr>) = 1"
    by (simp_all add: sample_def)
  from duplicate_id_overwrites [OF reachable_one_of_3 h]
  obtain s1 where s1: "Save one_of_3 ((sample 1)\<lparr>ChannelID := ''grafana''\<rparr>) = (s1, None)"
    "index s1 1 = Some (head one_of_3)"
    "Get s1 1 = Inr ((sample 1)\<lparr>ChannelID := ''grafana''\<rparr>)"
    and later: "\<forall>es. int (length es) < (0 - head one_of_3) mod cap one_of_3 \<longrightarrow>
      (\<exists>s2. Save_all s1 es = (s2, None) \<and> 0 < count s2 \<and>
         buf s2 ! nat 0 = buf one_of_3 ! nat 0 \<and> (\<forall>k. index s2 k \<noteq> Some 0))"
    by blast
  from later [rule_format, of "[sample 2]"]
  have "\<exists>s2. Save_all s1 [sample 2] = (s2, None) \<and> 0 < count s2 \<and> buf s2 ! nat 0 = sample 1 \<and>
         (\<forall>k. index s2 k \<noteq> Some 0)"
    by simp
  moreover have "index s1 1 = Some 1" using s1(2) by simp
  ultimately have "\<exists>s1. Save one_of_3 ((sample 1)\<lparr>ChannelID := ''grafana''\<rparr>) = (s1, None) \<and>
      index s1 1 = Some 1 \<and> Get s1 1 = Inr ((sample 1)\<lparr>ChannelID := ''grafana''\<rparr>) \<and>
      (\<exists>s2. Save_all s1 [sample 2] = (s2, None) \<and> 0 < count s2 \<and> buf s2 ! nat 0 = sample 1 \<and>
         (\<forall>k. index s2 k \<noteq> Some 0))"
    using s1(1,3) by blast
  with h reachable_one_of_3 show ?thesis by blast
qed

section \<open>List\<close>

text \<open>
  C2. A store that holds the records \<open>r1, \<dots>, rN\<close>, saved in this order, with
  \<open>N\<close> at most the capacity, returns \<open>rN, \<dots>, r1\<close> from \<open>List n 0\<close> for every
  \<open>n \<ge> N\<close>. The store holds exactly these records when they were saved into a fresh
  store, or when they are the last \<open>N = capacity\<close> of the records saved, the earlier
  ones \<open>pre\<close> being evicted. The IDs need not be distinct: \<open>List\<close> reads the buffer,
  not the index.
\<close>

theorem List_newest_first:
  assumes new: "NewMemoryStore c = Inr s0"
    and N: "int (length rs) \<le> c"
    and held: "pre = [] \<or> int (length rs) = c"
    and n: "int (length rs) \<le> n"
  shows "\<exists>s. Save_all s0 (pre @ rs) = (s, None) \<and> List s n 0 = Inr (rev rs)"
proof -
  from Save_all_New [OF new, of "pre @ rs"] obtain s where
    s: "Save_all s0 (pre @ rs) = (s, None)" and inv: "store_inv s"
    and nf: "newest_first s = take (nat c) (rev (pre @ rs))"
    by blast
  have "take (nat c) (rev rs @ rev pre) = rev rs"
    using N held by auto
  then have "newest_first s = rev rs" using nf by simp
  moreover have "rs = []" if "n \<le> 0"
    using n that by (cases rs) auto
  ultimately have "List s n 0 = Inr (rev rs)"
    using n by (auto simp: List_eq [OF inv])
  with s show ?thesis by blast
qed

theorem List_newest_first_witness:
  "(\<exists>s. Save_all fresh3 [sample 1, sample 2] = (s, None) \<and>
        List s 5 0 = Inr [sample 2, sample 1]) \<and>
   (\<exists>s. Save_all fresh3 [sample 1, sample 2, sample 3, sample 4, sample 5] = (s, None) \<and>
        List s 3 0 = Inr [sample 5, sample 4, sample 3])"
proof -
  have "\<exists>s. Save_all fresh3 [sample 1, sample 2] = (s, None) \<and>
        List s 5 0 = Inr [sample 2, sample 1]"
    using List_newest_first [OF New_fresh3, of "[sample 1, sample 2]" "[]" 5] by simp
  moreover have "\<exists>s. Save_all fresh3 [sample 1, sample 2, sample 3, sample 4, sample 5] = (s, None) \<and>
        List s 3 0 = Inr [sample 5, sample 4, sample 3]"
    using List_newest_first [OF New_fresh3, of "[sample 3, sample 4, sample 5]"
        "[sample 1, sample 2]" 3] by simp
  ultimately show ?thesis by blast
qed

text \<open>
  C5. On every store a program can hold and for all integers \<open>limit\<close> and \<open>offset\<close>,
  \<open>List\<close> returns no error. The result is empty when \<open>limit \<le> 0\<close>; a negative
  offset gives the result of offset 0; the result is empty when the offset is at least the
  \<open>Count\<close>; and otherwise it is the slice of the newest-first sequence that starts at
  position \<open>offset\<close> and has at most \<open>limit\<close> elements. The newest-first sequence
  is what \<open>List\<close> returns for the whole store, and by \<open>Save_all_New\<close> the records
  saved, last first, cut at the capacity. The \<^verbatim>\<open>nil\<close> slice of the first case and the
  empty slice of the third are both the empty list here.
\<close>

theorem List_pagination:
  assumes "reachable s"
  shows "List s limit offset =
           Inr (if limit \<le> 0 then []
                else take (nat limit) (drop (nat (max 0 offset)) (newest_first s))) \<and>
         (limit \<le> 0 \<longrightarrow> List s limit offset = Inr []) \<and>
         (offset < 0 \<longrightarrow> List s limit offset = List s limit 0) \<and>
         (Count s \<le> offset \<longrightarrow> List s limit offset = Inr []) \<and>
         (\<exists>rs. List s limit offset = Inr rs \<and> int (length rs) \<le> max 0 limit) \<and>
         List s (Count s) 0 = Inr (newest_first s)"
proof -
  have inv: "store_inv s" using assms by (rule reachable_inv)
  have l: "length (newest_first s) = nat (count s)" by (simp add: newest_first_def)
  have m: "(if offset < 0 then 0 else offset) = max 0 offset" by simp
  have 1: "List s limit offset =
      Inr (if limit \<le> 0 then []
           else take (nat limit) (drop (nat (max 0 offset)) (newest_first s)))"
    unfolding List_eq [OF inv] m by simp
  have 2: "limit \<le> 0 \<longrightarrow> List s limit offset = Inr []"
    by (simp add: 1)
  have 3: "offset < 0 \<longrightarrow> List s limit offset = List s limit 0"
    by (simp add: List_eq [OF inv])
  have 4: "Count s \<le> offset \<longrightarrow> List s limit offset = Inr []"
    using l by (auto simp: 1 Count_def)
  have 5: "\<exists>rs. List s limit offset = Inr rs \<and> int (length rs) \<le> max 0 limit"
  proof (cases "limit \<le> 0")
    case True
    then show ?thesis by (simp add: 1)
  next
    case False
    then have "int (min n (nat limit)) \<le> limit" for n by simp
    with False show ?thesis by (simp add: 1)
  qed
  have 6: "List s (Count s) 0 = Inr (newest_first s)"
    using l by (auto simp: List_eq [OF inv] Count_def)
  from 1 2 3 4 5 6 show ?thesis by blast
qed

theorem List_pagination_witness:
  "\<exists>s. Save_all fresh3 [sample 1, sample 2, sample 3, sample 4, sample 5] = (s, None) \<and>
     reachable s \<and>
     List s 10 0 = Inr [sample 5, sample 4, sample 3] \<and>
     List s 2 1 = Inr [sample 4, sample 3] \<and>
     List s 0 0 = Inr [] \<and> List s (- 1) 1 = Inr [] \<and>
     List s 2 (- 4) = Inr [sample 5, sample 4] \<and>
     List s 2 3 = Inr [] \<and> List s 1 2 = Inr [sample 3]"
proof -
  from Save_all_New [OF New_fresh3, of "[sample 1, sample 2, sample 3, sample 4, sample 5]"]
  obtain s where s: "Save_all fresh3 [sample 1, sample 2, sample 3, sample 4, sample 5] = (s, None)"
    and nf: "newest_first s = [sample 5, sample 4, sample 3]"
    by (auto simp: numeral_3_eq_3)
  have r: "reachable s" using reachable_fresh3 s by (rule reachable_Save_all)
  have "List s 10 0 = Inr [sample 5, sample 4, sample 3]"
    using List_pagination [OF r, of 10 0] by (simp add: nf)
  moreover have "List s 2 1 = Inr [sample 4, sample 3]"
    using List_pagination [OF r, of 2 1] by (simp add: nf numeral_2_eq_2)
  moreover have "List s 0 0 = Inr []"
    using List_pagination [OF r, of 0 0] by simp
  moreover have "List s (- 1) 1 = Inr []"
    using List_pagination [OF r, of "- 1" 1] by simp
  moreover have "List s 2 (- 4) = Inr [sample 5, sample 4]"
    using List_pagination [OF r, of 2 "- 4"] by (simp add: nf numeral_2_eq_2)
  moreover have "List s 2 3 = Inr []"
    using List_pagination [OF r, of 2 3] by (simp add: nf numeral_3_eq_3)
  moreover have "List s 1 2 = Inr [sample 3]"
    using List_pagination [OF r, of 1 2] by (simp add: nf numeral_2_eq_2)
  ultimately show ?thesis using s r by blast
qed

section \<open>UpdateStatus\<close>

text \<open>
  C6. On a store a program can hold, \<open>UpdateStatus\<close> on an ID that \<open>Get\<close> does not
  find fails with \<open>ErrNotFound\<close> and returns the store as it was. On an ID that
  \<open>Get\<close> finds it succeeds, and afterwards \<open>Get\<close> returns the same record with the
  new status and every other field as before; \<open>Get\<close> on every other ID is unchanged, and
  so are the count, the cursor, the capacity and the index. The newest-first sequence holds
  the same IDs at the same positions, and differs at most by the status of that record: the
  record keeps its place in the eviction order.
\<close>

theorem UpdateStatus_frame:
  assumes "reachable s"
  shows "(Get s x = Inl ErrNotFound \<longrightarrow> UpdateStatus s x st = (s, Some ErrNotFound)) \<and>
         (\<forall>r. Get s x = Inr r \<longrightarrow>
            (\<exists>s'. UpdateStatus s x st = (s', None) \<and>
               Get s' x = Inr (r\<lparr>Status := st\<rparr>) \<and>
               (\<forall>y. y \<noteq> x \<longrightarrow> Get s' y = Get s y) \<and>
               Count s' = Count s \<and> head s' = head s \<and> cap s' = cap s \<and> index s' = index s \<and>
               map ID (newest_first s') = map ID (newest_first s) \<and>
               (\<forall>i<length (newest_first s). newest_first s' ! i = newest_first s ! i \<or>
                    newest_first s ! i = r \<and> newest_first s' ! i = r\<lparr>Status := st\<rparr>)))"
proof (intro conjI impI allI)
  have inv: "store_inv s" using assms by (rule reachable_inv)
  {
    assume "Get s x = Inl ErrNotFound"
    then have "index s x = None" using Get_cases [OF inv] by blast
    then show "UpdateStatus s x st = (s, Some ErrNotFound)" by (simp add: UpdateStatus_def)
  }
  fix r assume "Get s x = Inr r"
  then obtain p where idx: "index s x = Some p" and r: "r = buf s ! nat p"
    using Get_cases [OF inv] by blast
  note u = UpdateStatus_eq [OF inv idx]
  let ?s' = "s\<lparr>buf := (buf s)[nat p := r\<lparr>Status := st\<rparr>]\<rparr>"
  have us: "UpdateStatus s x st = (?s', None)" using u(1) r by simp
  have inv': "store_inv ?s'"
    using store_inv_UpdateStatus [OF inv, of x st] us by simp
  have g: "Get ?s' x = Inr (r\<lparr>Status := st\<rparr>)"
    using u(3,4) idx by (simp add: Get_def in_range_def)
  have other: "Get ?s' y = Get s y" if "y \<noteq> x" for y
  proof (cases "index s y")
    case None
    then show ?thesis by (simp add: Get_def)
  next
    case (Some q)
    from store_inv_index [OF inv Some] store_inv_index [OF inv idx] that
    have "0 \<le> q" "0 \<le> p" "q \<noteq> p" by auto
    then have "nat q \<noteq> nat p" by simp
    then show ?thesis using Some by (simp add: Get_def in_range_def)
  qed
  have ids: "map ID (newest_first ?s') = map ID (newest_first s)"
    using ID_update_status [of "buf s" "nat p" st] r by (simp add: newest_first_def)
  have pos: "newest_first ?s' ! i = newest_first s ! i \<or>
      newest_first s ! i = r \<and> newest_first ?s' ! i = r\<lparr>Status := st\<rparr>"
    if "i < length (newest_first s)" for i
  proof -
    let ?q = "nat ((head s - 1 - int i + cap s) mod cap s)"
    have "i < nat (count s)" using that by (simp add: newest_first_def)
    then have a: "newest_first s ! i = buf s ! ?q" "newest_first ?s' ! i = buf ?s' ! ?q"
      by (simp_all add: newest_first_def)
    show ?thesis
      using u(4) r unfolding a by (cases "?q = nat p") simp_all
  qed
  show "\<exists>s'. UpdateStatus s x st = (s', None) \<and>
               Get s' x = Inr (r\<lparr>Status := st\<rparr>) \<and>
               (\<forall>y. y \<noteq> x \<longrightarrow> Get s' y = Get s y) \<and>
               Count s' = Count s \<and> head s' = head s \<and> cap s' = cap s \<and> index s' = index s \<and>
               map ID (newest_first s') = map ID (newest_first s) \<and>
               (\<forall>i<length (newest_first s). newest_first s' ! i = newest_first s ! i \<or>
                    newest_first s ! i = r \<and> newest_first s' ! i = r\<lparr>Status := st\<rparr>)"
    using us g other ids pos by (intro exI [of _ ?s']) (simp add: Count_def)
qed

theorem UpdateStatus_frame_witness:
  "reachable one_of_3 \<and> Get one_of_3 1 = Inr (sample 1) \<and>
   (\<exists>s'. UpdateStatus one_of_3 1 EventStatusCompleted = (s', None) \<and>
      Get s' 1 = Inr ((sample 1)\<lparr>Status := EventStatusCompleted\<rparr>) \<and>
      Count s' = Count one_of_3 \<and> head s' = head one_of_3 \<and> index s' = index one_of_3) \<and>
   Get one_of_3 5 = Inl ErrNotFound \<and>
   UpdateStatus one_of_3 5 EventStatusCompleted = (one_of_3, Some ErrNotFound)"
proof -
  have g: "Get one_of_3 1 = Inr (sample 1)" "Get one_of_3 5 = Inl ErrNotFound"
    by (simp_all add: Get_def in_range_def)
  from UpdateStatus_frame [OF reachable_one_of_3, of 1 EventStatusCompleted] g(1)
  have 1: "\<exists>s'. UpdateStatus one_of_3 1 EventStatusCompleted = (s', None) \<and>
      Get s' 1 = Inr ((sample 1)\<lparr>Status := EventStatusCompleted\<rparr>) \<and>
      Count s' = Count one_of_3 \<and> head s' = head one_of_3 \<and> index s' = index one_of_3"
    by auto
  from UpdateStatus_frame [OF reachable_one_of_3, of 5 EventStatusCompleted] g(2)
  have 2: "UpdateStatus one_of_3 5 EventStatusCompleted = (one_of_3, Some ErrNotFound)"
    by simp
  from 1 2 g reachable_one_of_3 show ?thesis by simp
qed

text \<open>
  C10. \<open>UpdateStatus\<close> does not validate the status: for every ID that \<open>Get\<close> finds
  and every string \<open>st\<close>, also one that is none of the four lifecycle constants, it
  succeeds, and \<open>Get\<close> then returns a record whose status is \<open>st\<close>.
\<close>

theorem UpdateStatus_no_validation:
  assumes "reachable s" and "Get s x = Inr r"
  shows "\<exists>s' r'. UpdateStatus s x st = (s', None) \<and> Get s' x = Inr r' \<and> Status r' = st"
proof -
  have inv: "store_inv s" using assms(1) by (rule reachable_inv)
  from assms(2) obtain p where idx: "index s x = Some p"
    using Get_cases [OF inv] by blast
  note u = UpdateStatus_eq [OF inv idx]
  have "Get (s\<lparr>buf := (buf s)[nat p := (buf s ! nat p)\<lparr>Status := st\<rparr>]\<rparr>) x =
      Inr ((buf s ! nat p)\<lparr>Status := st\<rparr>)"
    using u(3,4) idx by (simp add: Get_def in_range_def)
  with u(1) show ?thesis by simp
qed

theorem UpdateStatus_no_validation_witness:
  "reachable one_of_3 \<and> Get one_of_3 1 = Inr (sample 1) \<and>
   ''archived'' \<notin> {EventStatusReceived, EventStatusForwarded, EventStatusFailed,
      EventStatusCompleted} \<and>
   (\<exists>s' r'. UpdateStatus one_of_3 1 ''archived'' = (s', None) \<and> Get s' 1 = Inr r' \<and>
      Status r' = ''archived'')"
proof -
  have g: "Get one_of_3 1 = Inr (sample 1)" by (simp add: Get_def in_range_def)
  have n: "''archived'' \<notin> {EventStatusReceived, EventStatusForwarded, EventStatusFailed,
      EventStatusCompleted}"
    by (simp add: EventStatusReceived_def EventStatusForwarded_def EventStatusFailed_def
        EventStatusCompleted_def)
  from UpdateStatus_no_validation [OF reachable_one_of_3 g, of "''archived''"] g n
    reachable_one_of_3
  show ?thesis by simp
qed

end
